theory Spec2Isabelle
  imports Main "HOL-Library.Multiset" "HOL-Library.Sublist"
begin

section \<open>Kids Calendar: tag propagation, matching, assignment and day grouping\<close>

text \<open>
  A shallow embedding of the state-changing handlers and derived values of
  \<^verbatim>\<open>src/src/App.jsx\<close>. React state is one record; a handler is a function from the
  record to the next record; a \<^verbatim>\<open>useMemo\<close> value is a function of the state it reads.
  Values the platform supplies (\<^verbatim>\<open>Date.now()\<close>, \<^verbatim>\<open>crypto.randomUUID()\<close>,
  \<^verbatim>\<open>String.prototype.localeCompare\<close>, the \<^verbatim>\<open>Date\<close> constructor, the local time
  zone) are parameters.
\<close>

subsection \<open>Strings\<close>

text \<open>
  A string is a list of characters with codes below 256. \<^verbatim>\<open>trim\<close> removes the white
  space and line terminators of ECMAScript found in that range; \<^verbatim>\<open>toLowerCase\<close> maps
  the upper-case letters of that range. \<^verbatim>\<open>s.includes(q)\<close> is \<open>sublist q s\<close>.
\<close>

definition isWhiteSpace :: "char \<Rightarrow> bool" where
  "isWhiteSpace c = (of_char c \<in> {9, 10, 11, 12, 13, 32, 160 :: nat})"

definition trim :: "string \<Rightarrow> string" where
  "trim s = rev (dropWhile isWhiteSpace (rev (dropWhile isWhiteSpace s)))"

definition clampStr :: "string \<Rightarrow> string" where
  "clampStr s = trim s"

definition lowerChar :: "char \<Rightarrow> char" where
  "lowerChar c =
     (let n = (of_char c :: nat)
      in if (65 \<le> n \<and> n \<le> 90) \<or> (192 \<le> n \<and> n \<le> 222 \<and> n \<noteq> 215)
         then char_of (n + 32) else c)"

definition toLowerCase :: "string \<Rightarrow> string" where
  "toLowerCase s = map lowerChar s"

subsection \<open>Arrays\<close>

text \<open>
  \<^verbatim>\<open>Array.from(new Set(xs))\<close>: a Set keeps the first occurrence of each element, in
  insertion order.
\<close>

definition dedupe :: "'a list \<Rightarrow> 'a list" where
  "dedupe xs = foldl (\<lambda>seen x. if x \<in> set seen then seen else seen @ [x]) [] xs"

text \<open>
  \<^verbatim>\<open>intersectionCount(a, bSet)\<close>: the loop counts every element of the array \<open>a\<close>
  (repetitions included) that the set has.
\<close>

definition intersectionCount :: "'a list \<Rightarrow> 'a set \<Rightarrow> int" where
  "intersectionCount a bSet = fold (\<lambda>t c. if t \<in> bSet then c + 1 else c) a 0"

text \<open>
  \<^verbatim>\<open>Array.prototype.sort(cmp)\<close> is stable. For a comparator that is a consistent
  ordering the result is the one a stable insertion sort gives: an element goes before
  the first element it does not compare greater than. (For an inconsistent comparator
  ECMAScript leaves the order to the implementation; the model then is one such
  implementation.) A comparator result \<^verbatim>\<open>NaN\<close> counts as 0.
\<close>

fun insertSorted :: "('a \<Rightarrow> 'a \<Rightarrow> int) \<Rightarrow> 'a \<Rightarrow> 'a list \<Rightarrow> 'a list" where
  "insertSorted cmp x [] = [x]"
| "insertSorted cmp x (y # ys) =
     (if cmp x y \<le> 0 then x # y # ys else y # insertSorted cmp x ys)"

definition jsSort :: "('a \<Rightarrow> 'a \<Rightarrow> int) \<Rightarrow> 'a list \<Rightarrow> 'a list" where
  "jsSort cmp xs = foldr (insertSorted cmp) xs []"

subsection \<open>Dates\<close>

text \<open>
  A \<^verbatim>\<open>Date\<close> is its time value: \<open>Some t\<close>, with \<open>t\<close> the milliseconds since the
  epoch, or \<open>None\<close> for an Invalid Date (time value \<^verbatim>\<open>NaN\<close>). A comparison with an
  invalid date is false, arithmetic with it is \<^verbatim>\<open>NaN\<close>.

  The local time zone is a parameter: \<open>localTime\<close> is ECMAScript's \<^verbatim>\<open>LocalTime(t)\<close>,
  from a time value to the milliseconds of local civil time, and \<open>utcTime\<close> is
  \<^verbatim>\<open>UTC(t)\<close>, the way back (a local time that a clock change skips is read with the
  offset before the change). \<open>timeClip\<close> is \<^verbatim>\<open>TimeClip\<close>: a setter that leaves the range
  of time values, 100,000,000 days to either side of the epoch, makes the date invalid.
  With them
  \<^item> \<^verbatim>\<open>setHours(0, 0, 0, 0)\<close> is \<^verbatim>\<open>TimeClip(UTC(MakeDate(Day(LocalTime(t)), 0)))\<close>;
  \<^item> \<^verbatim>\<open>setDate(getDate() + n)\<close> is \<^verbatim>\<open>TimeClip(UTC(LocalTime(t) + n * msPerDay))\<close>:
    the day moves, the local time of day stays;
  \<^item> \<^verbatim>\<open>ymd(d)\<close> prints the year, month and date of \<^verbatim>\<open>LocalTime(t)\<close>: one string per
    local calendar day (and \<^verbatim>\<open>NaN-NaN-NaN\<close> for an invalid date), so the key it
    yields is modelled as the number of that day, \<open>None\<close> for the invalid date.
\<close>

type_synonym jsdate = "int option"








definition date_lt :: "jsdate \<Rightarrow> jsdate \<Rightarrow> bool" where
  "date_lt a b = (case (a, b) of (Some x, Some y) \<Rightarrow> x < y | _ \<Rightarrow> False)"


definition date_ge :: "jsdate \<Rightarrow> jsdate \<Rightarrow> bool" where
  "date_ge a b = (case (a, b) of (Some x, Some y) \<Rightarrow> x \<ge> y | _ \<Rightarrow> False)"

text \<open>\<^verbatim>\<open>a - b\<close> on two dates as a sort comparator: \<^verbatim>\<open>NaN\<close> counts as 0.\<close>

definition date_diff :: "jsdate \<Rightarrow> jsdate \<Rightarrow> int" where
  "date_diff a b = (case (a, b) of (Some x, Some y) \<Rightarrow> x - y | _ \<Rightarrow> 0)"

subsection \<open>Data model\<close>

text \<open>
  The records hold the fields the persisted document gives every kid and event; the
  defaults the code applies to a missing field (\<^verbatim>\<open>k.tags ?? []\<close>, \<^verbatim>\<open>k.name ?? ""\<close>,
  \<^verbatim>\<open>k.createdAt ?? 0\<close>, \<^verbatim>\<open>ev.participants ?? []\<close>) never apply to them. The optional
  \<^verbatim>\<open>suggestedAt\<close> is an option; an absent \<^verbatim>\<open>suggestNotes\<close> is the empty object. An
  object is the list of its entries, each key once.
\<close>

record kid =
  kid_id :: string
  kid_name :: string
  kid_tags :: "string list"
  createdAt :: int

record participation =
  kidId :: string
  status :: nat

record event =
  ev_id :: string
  ev_title :: string
  ev_start :: jsdate
  ev_end :: jsdate
  ev_tags :: "string list"
  participants :: "participation list"
  suggestedAt :: "int option"
  suggestNotes :: "(string \<times> string) list"

record app_state =
  tagCatalog :: "(string \<times> string list) list"
  kids :: "kid list"
  events :: "event list"
  kidFilterTags :: "string list"
  newKidTags :: "string list"
  editKidTags :: "string list"
  evTags :: "string list"
  editEventTags :: "string list"
  listFilterTags :: "string list"
  listSearch :: string
  evTitle :: string
  evStartDate :: string
  evEndDate :: string
  evStartTime :: string
  evEndTime :: string
  activeEventIdForDetail :: "string option"
  activeEventIdForSuggest :: "string option"
  suggestSearch :: string
  suggestSelection :: "(string \<times> bool) list"

subsection \<open>Tag rename and delete propagation\<close>

definition replaceIn :: "string \<Rightarrow> string \<Rightarrow> string list \<Rightarrow> string list" where
  "replaceIn o' n arr = map (\<lambda>t. if t = o' then n else t) arr"

definition renameTagEverywhere :: "string \<Rightarrow> string \<Rightarrow> app_state \<Rightarrow> app_state" where
  "renameTagEverywhere oldTag newTag s =
     (let o' = clampStr oldTag; n = clampStr newTag
      in if o' = [] \<or> n = [] \<or> o' = n then s
         else s\<lparr>tagCatalog := map (\<lambda>(cat, list). (cat, dedupe (replaceIn o' n list))) (tagCatalog s),
                kids := map (\<lambda>k. k\<lparr>kid_tags := dedupe (replaceIn o' n (kid_tags k))\<rparr>) (kids s),
                events := map (\<lambda>e. e\<lparr>ev_tags := dedupe (replaceIn o' n (ev_tags e))\<rparr>) (events s),
                kidFilterTags := dedupe (replaceIn o' n (kidFilterTags s)),
                newKidTags := dedupe (replaceIn o' n (newKidTags s)),
                editKidTags := dedupe (replaceIn o' n (editKidTags s)),
                evTags := dedupe (replaceIn o' n (evTags s)),
                editEventTags := dedupe (replaceIn o' n (editEventTags s))\<rparr>)"

definition removeFrom :: "string \<Rightarrow> string list \<Rightarrow> string list" where
  "removeFrom t arr = filter (\<lambda>x. x \<noteq> t) arr"

definition deleteTagEverywhere :: "string \<Rightarrow> app_state \<Rightarrow> app_state" where
  "deleteTagEverywhere tag s =
     (let t = clampStr tag
      in if t = [] then s
         else s\<lparr>tagCatalog := map (\<lambda>(cat, list). (cat, removeFrom t list)) (tagCatalog s),
                kids := map (\<lambda>k. k\<lparr>kid_tags := removeFrom t (kid_tags k)\<rparr>) (kids s),
                events := map (\<lambda>e. e\<lparr>ev_tags := removeFrom t (ev_tags e)\<rparr>) (events s),
                kidFilterTags := removeFrom t (kidFilterTags s),
                newKidTags := removeFrom t (newKidTags s),
                editKidTags := removeFrom t (editKidTags s),
                evTags := removeFrom t (evTags s),
                editEventTags := removeFrom t (editEventTags s)\<rparr>)"

subsection \<open>Suggestions: ranking and confirmation\<close>

definition activeEventForSuggest :: "app_state \<Rightarrow> event option" where
  "activeEventForSuggest s =
     (case activeEventIdForSuggest s of
        None \<Rightarrow> None
      | Some i \<Rightarrow> find (\<lambda>e. ev_id e = i) (events s))"

definition openSuggestForEvent :: "string \<Rightarrow> app_state \<Rightarrow> app_state" where
  "openSuggestForEvent eventId s =
     s\<lparr>activeEventIdForSuggest := Some eventId, suggestSearch := [], suggestSelection := []\<rparr>"

definition assignedKidIds :: "app_state \<Rightarrow> string set" where
  "assignedKidIds s =
     (case activeEventForSuggest s of
        None \<Rightarrow> {}
      | Some ev \<Rightarrow> set (map kidId (participants ev)))"

text \<open>The text filter of the suggestion list; \<open>q\<close> is the trimmed, lower-cased search.\<close>

definition queryHit :: "string \<Rightarrow> kid \<Rightarrow> bool" where
  "queryHit q k =
     (if q = [] then True
      else (let nameHit = sublist q (toLowerCase (kid_name k));
                tagHit = list_ex (\<lambda>t. sublist q (toLowerCase t)) (kid_tags k)
            in nameHit \<or> tagHit))"

text \<open>
  The comparator \<^verbatim>\<open>b.score - a.score || a.kid.name.localeCompare(b.kid.name)\<close>;
  \<open>localeCompare\<close> is the platform's collation of two names.
\<close>

definition byScoreThenName :: "(string \<Rightarrow> string \<Rightarrow> int) \<Rightarrow> kid \<times> int \<Rightarrow> kid \<times> int \<Rightarrow> int" where
  "byScoreThenName localeCompare a b =
     (if snd b - snd a \<noteq> 0 then snd b - snd a
      else localeCompare (kid_name (fst a)) (kid_name (fst b)))"

text \<open>
  \<^verbatim>\<open>suggestedKids\<close>, as a function of the values the memo depends on: the active event,
  the roster, the search text and the ids already assigned.
\<close>

definition suggestedKids ::
  "(string \<Rightarrow> string \<Rightarrow> int) \<Rightarrow> event option \<Rightarrow> kid list \<Rightarrow> string \<Rightarrow> string set \<Rightarrow> (kid \<times> int) list" where
  "suggestedKids localeCompare active ks search assigned =
     (case active of
        None \<Rightarrow> []
      | Some ev \<Rightarrow>
          (let evTagSet = set (ev_tags ev);
               q = toLowerCase (trim search);
               scored = filter (\<lambda>x. snd x > 0)
                          (map (\<lambda>k. (k, intersectionCount (kid_tags k) evTagSet))
                             (filter (queryHit q)
                                (filter (\<lambda>k. kid_id k \<notin> assigned) ks)))
           in jsSort (byScoreThenName localeCompare) scored))"

text \<open>
  \<^verbatim>\<open>confirmSuggested\<close> is a closure of one render. What it reads directly, the active
  event \<^verbatim>\<open>ev\<close> and \<^verbatim>\<open>suggestSelection\<close>, it reads from the state as it was rendered:
  \<open>rendered\<close>. The updater it passes to \<^verbatim>\<open>setEvents\<close> gets the event list of the state
  at the time the updater runs: \<open>s\<close>. The two are the same state when the handler runs
  once per render. The ids to add are computed from \<open>rendered\<close> and appended to the
  participants found in \<open>s\<close>. \<open>now\<close> is the value of \<^verbatim>\<open>Date.now()\<close>. The picked ids
  are the keys of the selection object whose value is true.
\<close>

definition confirmSuggested :: "int \<Rightarrow> app_state \<Rightarrow> app_state \<Rightarrow> app_state" where
  "confirmSuggested now rendered s =
     (case activeEventForSuggest rendered of
        None \<Rightarrow> s
      | Some ev \<Rightarrow>
          (let picked = map fst (filter snd (suggestSelection rendered));
               existing = set (map kidId (participants ev));
               toAdd = map (\<lambda>i. \<lparr>kidId = i, status = 0\<rparr>) (filter (\<lambda>i. i \<notin> existing) picked)
           in s\<lparr>events :=
                  map (\<lambda>e. if ev_id e = ev_id ev
                           then e\<lparr>suggestedAt := Some (case suggestedAt e of None \<Rightarrow> now | Some b \<Rightarrow> b),
                                  participants := participants e @ toAdd\<rparr>
                           else e)
                    (events s),
                activeEventIdForSuggest := None\<rparr>))"

subsection \<open>Attention: new matches after the baseline\<close>

text \<open>
  The body both detector passes share per event is written twice in the source; it is
  modelled twice. \<open>attentionCount\<close> is the counting loop of \<^verbatim>\<open>attentionById\<close>,
  \<open>newMatches\<close> the collecting loop and sort of \<^verbatim>\<open>detailNewMatches\<close>.
\<close>

definition attentionCount :: "kid list \<Rightarrow> event \<Rightarrow> nat" where
  "attentionCount ks ev =
     (let baseline = (case suggestedAt ev of None \<Rightarrow> 0 | Some b \<Rightarrow> b)
      in if baseline = 0 then 0
         else (let evTagsSet = set (ev_tags ev)
               in if evTagsSet = {} then 0
                  else (let assigned = set (map kidId (participants ev))
                        in fold (\<lambda>k c. if kid_id k \<in> assigned then c
                                        else if createdAt k \<le> baseline then c
                                        else if intersectionCount (kid_tags k) evTagsSet > 1 then c + 1
                                        else c) ks 0)))"

definition attentionById :: "kid list \<Rightarrow> event list \<Rightarrow> (string \<rightharpoonup> nat)" where
  "attentionById ks evs = foldl (\<lambda>out ev. out(ev_id ev \<mapsto> attentionCount ks ev)) Map.empty evs"

definition newMatches :: "(string \<Rightarrow> string \<Rightarrow> int) \<Rightarrow> kid list \<Rightarrow> event \<Rightarrow> (kid \<times> int) list" where
  "newMatches localeCompare ks ev =
     (let baseline = (case suggestedAt ev of None \<Rightarrow> 0 | Some b \<Rightarrow> b)
      in if baseline = 0 then []
         else (let evTagsSet = set (ev_tags ev)
               in if evTagsSet = {} then []
                  else (let assigned = set (map kidId (participants ev));
                            hits = foldl (\<lambda>hits k. if kid_id k \<in> assigned then hits
                                                    else if createdAt k \<le> baseline then hits
                                                    else (let score = intersectionCount (kid_tags k) evTagsSet
                                                          in if score > 1 then hits @ [(k, score)] else hits))
                                     [] ks
                        in jsSort (byScoreThenName localeCompare) hits)))"

definition activeEventForDetail :: "app_state \<Rightarrow> event option" where
  "activeEventForDetail s =
     (case activeEventIdForDetail s of
        None \<Rightarrow> None
      | Some i \<Rightarrow> find (\<lambda>e. ev_id e = i) (events s))"

definition detailNewMatches :: "(string \<Rightarrow> string \<Rightarrow> int) \<Rightarrow> app_state \<Rightarrow> (kid \<times> int) list" where
  "detailNewMatches localeCompare s =
     (case activeEventForDetail s of
        None \<Rightarrow> []
      | Some ev \<Rightarrow> newMatches localeCompare (kids s) ev)"

subsection \<open>Grouping events by day\<close>






definition byStart :: "event \<Rightarrow> event \<Rightarrow> int" where
  "byStart a b = date_diff (ev_start a) (ev_start b)"


subsection \<open>List View\<close>








subsection \<open>Creating an event\<close>

text \<open>
  \<^verbatim>\<open>combineDateTime\<close> splits the two picker strings, converts each part with
  \<^verbatim>\<open>Number\<close> and calls \<^verbatim>\<open>new Date(y, m - 1, d, hh, mm, 0, 0)\<close>. \<open>jsNumber\<close> covers the
  strings a date or time picker yields: the empty string is 0, a run of decimal digits is
  its value, anything else is \<^verbatim>\<open>NaN\<close> (\<open>None\<close>). A part the split did not produce is
  \<^verbatim>\<open>undefined\<close>, which is \<^verbatim>\<open>NaN\<close> as a number. The \<^verbatim>\<open>Date\<close> constructor gives an
  Invalid Date when an argument is \<^verbatim>\<open>NaN\<close>; on numbers it is the parameter \<open>makeDate\<close>.
\<close>

fun splitOn :: "char \<Rightarrow> string \<Rightarrow> string list" where
  "splitOn c [] = [[]]"
| "splitOn c (x # xs) =
     (if x = c then [] # splitOn c xs
      else (case splitOn c xs of [] \<Rightarrow> [[x]] | w # ws \<Rightarrow> (x # w) # ws))"

definition isDigit :: "char \<Rightarrow> bool" where
  "isDigit c = (48 \<le> (of_char c :: nat) \<and> (of_char c :: nat) \<le> 57)"

definition jsNumber :: "string \<Rightarrow> int option" where
  "jsNumber s =
     (let t = trim s
      in if t = [] then Some 0
         else if list_all isDigit t
              then Some (foldl (\<lambda>n c. 10 * n + (int (of_char c) - 48)) 0 t)
              else None)"

definition part :: "int option list \<Rightarrow> nat \<Rightarrow> int option" where
  "part xs i = (if i < length xs then xs ! i else None)"

definition combineDateTime ::
  "(int \<Rightarrow> int \<Rightarrow> int \<Rightarrow> int \<Rightarrow> int \<Rightarrow> jsdate) \<Rightarrow> string \<Rightarrow> string \<Rightarrow> jsdate" where
  "combineDateTime makeDate dateStr timeStr =
     (let ds = map jsNumber (splitOn (CHR ''-'') dateStr);
          ts = map jsNumber (splitOn (CHR '':'') timeStr)
      in case (part ds 0, part ds 1, part ds 2, part ts 0, part ts 1) of
           (Some y, Some m, Some d, Some hh, Some mm) \<Rightarrow> makeDate y (m - 1) d hh mm
         | _ \<Rightarrow> None)"

text \<open>
  The two alerts of \<^verbatim>\<open>createEvent\<close>: "please enter an event name" and "the start
  date/time must be before the end date/time". The result is the alert shown, if any,
  and the next state; \<open>newId\<close> is the value of \<^verbatim>\<open>crypto.randomUUID()\<close>.
\<close>

datatype alert = TitleRequired | StartMustPrecedeEnd

definition createEvent ::
  "(int \<Rightarrow> int \<Rightarrow> int \<Rightarrow> int \<Rightarrow> int \<Rightarrow> jsdate) \<Rightarrow> string \<Rightarrow> app_state \<Rightarrow> alert option \<times> app_state" where
  "createEvent makeDate newId s =
     (let t = clampStr (evTitle s)
      in if t = [] then (Some TitleRequired, s)
         else (let start = combineDateTime makeDate (evStartDate s) (evStartTime s);
                   end' = combineDateTime makeDate (evEndDate s) (evEndTime s)
               in if date_ge start end' then (Some StartMustPrecedeEnd, s)
                  else (let ev = \<lparr>ev_id = newId, ev_title = t, ev_start = start, ev_end = end',
                                  ev_tags = evTags s, participants = [], suggestedAt = None,
                                  suggestNotes = []\<rparr>
                        in (None, openSuggestForEvent (ev_id ev)
                                    (s\<lparr>events := events s @ [ev], evTitle := []\<rparr>)))))"

subsection \<open>A sample state\<close>

text \<open>
  The scenario of the specification: one category with the tags north and south, kids
  with one or both tags, and an event from 18:00 of day 0 to 09:00 of day 1 (in UTC). The
  theorems below are instantiated at it.
\<close>

definition kidAnn :: kid where
  "kidAnn = \<lparr>kid_id = ''k1'', kid_name = ''Ann'', kid_tags = [''north''], createdAt = 100\<rparr>"

definition kidBen :: kid where
  "kidBen = \<lparr>kid_id = ''k2'', kid_name = ''Ben'', kid_tags = [''north'', ''south''], createdAt = 2000\<rparr>"

definition kidCy :: kid where
  "kidCy = \<lparr>kid_id = ''k3'', kid_name = ''Cy'', kid_tags = [''north''], createdAt = 2000\<rparr>"

definition campEvent :: event where
  "campEvent = \<lparr>ev_id = ''e1'', ev_title = ''Camp'', ev_start = Some 64800000, ev_end = Some 118800000,
                  ev_tags = [''north'', ''south''], participants = [], suggestedAt = None,
                  suggestNotes = []\<rparr>"

definition demoState :: app_state where
  "demoState =
     \<lparr>tagCatalog = [(''Region'', [''north'', ''south''])],
      kids = [kidAnn],
      events = [campEvent],
      kidFilterTags = [''north''], newKidTags = [], editKidTags = [], evTags = [],
      editEventTags = [], listFilterTags = [''north''], listSearch = [],
      evTitle = ''Trip'', evStartDate = [], evEndDate = ''2025-01-02'',
      evStartTime = ''09:00'', evEndTime = ''10:00'',
      activeEventIdForDetail = Some ''e1'', activeEventIdForSuggest = Some ''e1'',
      suggestSearch = [], suggestSelection = [(''k1'', True)]\<rparr>"

definition triagedCamp :: event where
  "triagedCamp = campEvent\<lparr>suggestedAt := Some 1000, participants := [\<lparr>kidId = ''k1'', status = 0\<rparr>]\<rparr>"

definition laterState :: app_state where
  "laterState = demoState\<lparr>kids := [kidAnn, kidBen, kidCy], events := [triagedCamp]\<rparr>"

text \<open>A sample collation for the instances: names compared character code by character code.\<close>

fun sampleCompare :: "string \<Rightarrow> string \<Rightarrow> int" where
  "sampleCompare [] [] = 0"
| "sampleCompare [] (y # ys) = - 1"
| "sampleCompare (x # xs) [] = 1"
| "sampleCompare (x # xs) (y # ys) =
     (if (of_char x :: nat) < of_char y then - 1
      else if (of_char y :: nat) < of_char x then 1
      else sampleCompare xs ys)"






section \<open>Properties\<close>

subsection \<open>Sorting\<close>

lemma set_insertSorted: "set (insertSorted cmp x ys) = insert x (set ys)"
  by (induction ys) auto

lemma mset_insertSorted: "mset (insertSorted cmp x ys) = add_mset x (mset ys)"
  by (induction ys) auto

lemma jsSort_Cons: "jsSort cmp (x # xs) = insertSorted cmp x (jsSort cmp xs)"
  by (simp add: jsSort_def)

lemma jsSort_Nil: "jsSort cmp [] = []"
  by (simp add: jsSort_def)

lemma mset_jsSort: "mset (jsSort cmp xs) = mset xs"
  by (induction xs) (simp_all add: jsSort_Nil jsSort_Cons mset_insertSorted)

lemma set_jsSort: "set (jsSort cmp xs) = set xs"
  by (induction xs) (simp_all add: jsSort_Nil jsSort_Cons set_insertSorted)

lemma length_jsSort: "length (jsSort cmp xs) = length xs"
proof -
  have "size (mset (jsSort cmp xs)) = size (mset xs)" by (simp only: mset_jsSort)
  then show ?thesis by simp
qed

lemma sorted_wrt_insertSorted:
  assumes "sorted_wrt R ys"
    and le: "\<And>y. y \<in> set ys \<Longrightarrow> cmp x y \<le> 0 \<Longrightarrow> R x y"
    and gt: "\<And>y. y \<in> set ys \<Longrightarrow> \<not> cmp x y \<le> 0 \<Longrightarrow> R y x"
    and tr: "\<And>y z. y \<in> set ys \<Longrightarrow> z \<in> set ys \<Longrightarrow> R x y \<Longrightarrow> R y z \<Longrightarrow> R x z"
  shows "sorted_wrt R (insertSorted cmp x ys)"
  using assms
proof (induction ys)
  case Nil
  show ?case by simp
next
  case (Cons y ys)
  have sorted_ys: "sorted_wrt R ys" and y_le: "\<And>z. z \<in> set ys \<Longrightarrow> R y z"
    using Cons.prems(1) by simp_all
  show ?case
  proof (cases "cmp x y \<le> 0")
    case True
    then have xy: "R x y" using Cons.prems(2) [of y] by simp
    have "R x z" if "z \<in> set ys" for z
      using that xy y_le [of z] Cons.prems(4) [of y z] by simp
    with True xy Cons.prems(1) show ?thesis by simp
  next
    case False
    then have yx: "R y x" using Cons.prems(3) [of y] by simp
    have "sorted_wrt R (insertSorted cmp x ys)"
    proof (rule Cons.IH [OF sorted_ys])
      fix z assume "z \<in> set ys" "cmp x z \<le> 0"
      then show "R x z" using Cons.prems(2) [of z] by simp
    next
      fix z assume "z \<in> set ys" "\<not> cmp x z \<le> 0"
      then show "R z x" using Cons.prems(3) [of z] by simp
    next
      fix z w assume "z \<in> set ys" "w \<in> set ys" "R x z" "R z w"
      then show "R x w" using Cons.prems(4) [of z w] by simp
    qed
    with False yx y_le show ?thesis by (simp add: set_insertSorted)
  qed
qed

lemma sorted_wrt_jsSort:
  assumes le: "\<And>x y. x \<in> set xs \<Longrightarrow> y \<in> set xs \<Longrightarrow> cmp x y \<le> 0 \<Longrightarrow> R x y"
    and gt: "\<And>x y. x \<in> set xs \<Longrightarrow> y \<in> set xs \<Longrightarrow> \<not> cmp x y \<le> 0 \<Longrightarrow> R y x"
    and tr: "\<And>x y z. x \<in> set xs \<Longrightarrow> y \<in> set xs \<Longrightarrow> z \<in> set xs \<Longrightarrow> R x y \<Longrightarrow> R y z \<Longrightarrow> R x z"
  shows "sorted_wrt R (jsSort cmp xs)"
  using assms
proof (induction xs)
  case Nil
  show ?case by (simp add: jsSort_Nil)
next
  case (Cons x xs)
  have IH: "sorted_wrt R (jsSort cmp xs)"
  proof (rule Cons.IH)
    fix a b assume "a \<in> set xs" "b \<in> set xs" "cmp a b \<le> 0"
    then show "R a b" using Cons.prems(1) [of a b] by simp
  next
    fix a b assume "a \<in> set xs" "b \<in> set xs" "\<not> cmp a b \<le> 0"
    then show "R b a" using Cons.prems(2) [of a b] by simp
  next
    fix a b c assume "a \<in> set xs" "b \<in> set xs" "c \<in> set xs" "R a b" "R b c"
    then show "R a c" using Cons.prems(3) [of a b c] by simp
  qed
  show ?case
    unfolding jsSort_Cons
  proof (rule sorted_wrt_insertSorted [OF IH])
    fix y assume "y \<in> set (jsSort cmp xs)" "cmp x y \<le> 0"
    then show "R x y" using Cons.prems(1) [of x y] by (simp add: set_jsSort)
  next
    fix y assume "y \<in> set (jsSort cmp xs)" "\<not> cmp x y \<le> 0"
    then show "R y x" using Cons.prems(2) [of x y] by (simp add: set_jsSort)
  next
    fix y z assume "y \<in> set (jsSort cmp xs)" "z \<in> set (jsSort cmp xs)" "R x y" "R y z"
    then show "R x z" using Cons.prems(3) [of x y z] by (simp add: set_jsSort)
  qed
qed

subsection \<open>Buckets\<close>


















lemma sorted_byStart_same_validity:
  assumes same: "\<And>a b. a \<in> set xs \<Longrightarrow> b \<in> set xs \<Longrightarrow> (ev_start a = None) = (ev_start b = None)"
  shows "sorted_wrt (\<lambda>a b. \<not> date_lt (ev_start b) (ev_start a)) (jsSort byStart xs)"
proof (rule sorted_wrt_jsSort)
  fix x y assume "x \<in> set xs" "y \<in> set xs" "byStart x y \<le> 0"
  then show "\<not> date_lt (ev_start y) (ev_start x)"
    by (auto simp: byStart_def date_diff_def date_lt_def split: option.splits)
next
  fix x y assume "x \<in> set xs" "y \<in> set xs" "\<not> byStart x y \<le> 0"
  then show "\<not> date_lt (ev_start x) (ev_start y)"
    by (auto simp: byStart_def date_diff_def date_lt_def split: option.splits)
next
  fix x y z
  assume "x \<in> set xs" "y \<in> set xs" "z \<in> set xs"
    and "\<not> date_lt (ev_start y) (ev_start x)" "\<not> date_lt (ev_start z) (ev_start y)"
  then show "\<not> date_lt (ev_start z) (ev_start x)"
    using same [of x y] same [of y z]
    by (auto simp: date_lt_def split: option.splits)
qed






subsection \<open>Confirming suggestions\<close>

lemma activeEventForSuggest_SomeD:
  assumes "activeEventForSuggest s = Some ev"
  shows "ev \<in> set (events s)" and "activeEventIdForSuggest s = Some (ev_id ev)"
    and "find (\<lambda>e. ev_id e = ev_id ev) (events s) = Some ev"
proof -
  from assms obtain i where i: "activeEventIdForSuggest s = Some i"
    and f: "find (\<lambda>e. ev_id e = i) (events s) = Some ev"
    by (auto simp: activeEventForSuggest_def split: option.splits)
  from f have "ev_id ev = i" and mem: "ev \<in> set (events s)"
    by (auto simp: find_Some_iff)
  with i f show "ev \<in> set (events s)" "activeEventIdForSuggest s = Some (ev_id ev)"
    "find (\<lambda>e. ev_id e = ev_id ev) (events s) = Some ev"
    by simp_all
qed

lemma confirmSuggested_None:
  "activeEventForSuggest rendered = None \<Longrightarrow> confirmSuggested now rendered s = s"
  by (simp add: confirmSuggested_def)

lemma events_confirmSuggested:
  "activeEventForSuggest rendered = Some ev \<Longrightarrow>
   events (confirmSuggested now rendered s) =
     map (\<lambda>e. if ev_id e = ev_id ev
              then e\<lparr>suggestedAt := Some (case suggestedAt e of None \<Rightarrow> now | Some b \<Rightarrow> b),
                     participants := participants e @
                       map (\<lambda>i. \<lparr>kidId = i, status = 0\<rparr>)
                         (filter (\<lambda>i. i \<notin> set (map kidId (participants ev)))
                            (map fst (filter snd (suggestSelection rendered))))\<rparr>
              else e)
       (events s)"
  by (simp add: confirmSuggested_def Let_def)

lemma find_map_update:
  assumes "find (\<lambda>e. ev_id e = i) xs = Some ev" and "\<And>e. ev_id (f e) = ev_id e"
  shows "find (\<lambda>e. ev_id e = i) (map (\<lambda>e. if ev_id e = i then f e else e) xs) = Some (f ev)"
  using assms(1)
proof (induction xs)
  case Nil
  then show ?case by simp
next
  case (Cons x xs)
  then show ?case using assms(2) by (cases "ev_id x = i") auto
qed

lemma ev_ids_confirmSuggested:
  "map ev_id (events (confirmSuggested now rendered s)) = map ev_id (events s)"
proof (cases "activeEventForSuggest rendered")
  case None
  then show ?thesis by (simp add: confirmSuggested_None)
next
  case (Some ev)
  show ?thesis
    unfolding events_confirmSuggested [OF Some] by (induction "events s") auto
qed

lemma distinct_picked:
  "distinct (map fst sel) \<Longrightarrow> distinct (map fst (filter snd sel))"
  by (rule distinct_map_filter)

text \<open>
  When the handler runs on the render of the current state (\<open>rendered = s\<close>), it keeps
  every participant list free of repeated ids, given unique event ids and distinct keys
  of the selection object.
\<close>

lemma confirmSuggested_preserves_unique_kidId:
  assumes ids: "distinct (map ev_id (events s))"
    and inv: "list_all (\<lambda>e. distinct (map kidId (participants e))) (events s)"
    and sel: "distinct (map fst (suggestSelection s))"
  shows "list_all (\<lambda>e. distinct (map kidId (participants e))) (events (confirmSuggested now s s))"
proof (cases "activeEventForSuggest s")
  case None
  then show ?thesis using inv by (simp add: confirmSuggested_None)
next
  case (Some ev)
  note mem = activeEventForSuggest_SomeD(1) [OF Some]
  have inj: "inj_on ev_id (set (events s))"
    using ids by (simp add: distinct_map)
  have same: "e = ev" if "e \<in> set (events s)" "ev_id e = ev_id ev" for e
    using inj that mem by (auto dest: inj_onD)
  define picked where "picked = map fst (filter snd (suggestSelection s))"
  have dp: "distinct picked"
    unfolding picked_def using sel by (rule distinct_picked)
  have "distinct (map kidId (participants e @
          map (\<lambda>i. \<lparr>kidId = i, status = 0\<rparr>) (filter (\<lambda>i. i \<notin> set (map kidId (participants ev))) picked)))"
    if "e \<in> set (events s)" "ev_id e = ev_id ev" for e
  proof -
    have "e = ev" using same that by simp
    moreover have "distinct (map kidId (participants ev))"
      using inv mem by (simp add: list_all_iff)
    moreover have "map kidId (map (\<lambda>i. \<lparr>kidId = i, status = 0\<rparr>) xs) = xs" for xs :: "string list"
      by (induction xs) auto
    ultimately show ?thesis using dp by (auto simp del: map_map)
  qed
  then show ?thesis
    using inv unfolding events_confirmSuggested [OF Some] picked_def [symmetric]
    by (auto simp: list_all_iff)
qed


text \<open>
  C5. An event whose \<^verbatim>\<open>suggestedAt\<close> is set keeps that value through
  \<^verbatim>\<open>confirmSuggested\<close>, whichever render the handler belongs to, whichever event is
  active and whatever is picked; the event list keeps its length and its ids.
\<close>

theorem confirmSuggested_keeps_baseline:
  assumes "i < length (events s)" and "suggestedAt (events s ! i) = Some b"
  shows "length (events (confirmSuggested now rendered s)) = length (events s)
       \<and> ev_id (events (confirmSuggested now rendered s) ! i) = ev_id (events s ! i)
       \<and> suggestedAt (events (confirmSuggested now rendered s) ! i) = Some b"
proof (cases "activeEventForSuggest rendered")
  case None
  then show ?thesis using assms by (simp add: confirmSuggested_None)
next
  case (Some ev)
  show ?thesis
    using assms unfolding events_confirmSuggested [OF Some] by simp
qed

theorem confirmSuggested_keeps_baseline_witness:
  "(0::nat) < length (events (demoState\<lparr>events := [campEvent\<lparr>suggestedAt := Some 1000\<rparr>]\<rparr>))
   \<and> suggestedAt (events (demoState\<lparr>events := [campEvent\<lparr>suggestedAt := Some 1000\<rparr>]\<rparr>) ! 0) = Some 1000
   \<and> activeEventForSuggest (demoState\<lparr>events := [campEvent\<lparr>suggestedAt := Some 1000\<rparr>]\<rparr>)
        = Some (campEvent\<lparr>suggestedAt := Some 1000\<rparr>)
   \<and> suggestedAt (events (confirmSuggested 3000
          (demoState\<lparr>events := [campEvent\<lparr>suggestedAt := Some 1000\<rparr>]\<rparr>)
          (demoState\<lparr>events := [campEvent\<lparr>suggestedAt := Some 1000\<rparr>]\<rparr>)) ! 0) = Some 1000"
proof -
  let ?s = "demoState\<lparr>events := [campEvent\<lparr>suggestedAt := Some 1000\<rparr>]\<rparr>"
  have h1: "0 < length (events ?s)" by simp
  have h2: "suggestedAt (events ?s ! 0) = Some 1000" by simp
  have h3: "activeEventForSuggest ?s = Some (campEvent\<lparr>suggestedAt := Some 1000\<rparr>)"
    by (simp add: activeEventForSuggest_def demoState_def campEvent_def)
  show ?thesis
    using h1 h2 h3 confirmSuggested_keeps_baseline [OF h1 h2, of 3000 ?s] by blast
qed

text \<open>
  C10. When the active event has no \<^verbatim>\<open>suggestedAt\<close> and every picked id is already
  among its participants (in particular when nothing is picked), \<^verbatim>\<open>confirmSuggested\<close>
  sets its \<^verbatim>\<open>suggestedAt\<close> to the current time and changes no participant list. The
  first two conjuncts say so for the handler run on the render of the current state; the
  last two say the same of any current state \<open>s\<close>, for the event \<open>e0\<close> that has the
  active event's id there and no \<^verbatim>\<open>suggestedAt\<close> yet.
\<close>

theorem confirmSuggested_sets_baseline_without_new_picks:
  assumes act: "activeEventForSuggest rendered = Some ev"
    and unset: "suggestedAt ev = None"
    and picks: "list_all (\<lambda>i. i \<in> set (map kidId (participants ev)))
                  (map fst (filter snd (suggestSelection rendered)))"
  shows "find (\<lambda>e. ev_id e = ev_id ev) (events (confirmSuggested now rendered rendered))
           = Some (ev\<lparr>suggestedAt := Some now\<rparr>)
       \<and> map participants (events (confirmSuggested now rendered rendered))
            = map participants (events rendered)
       \<and> (find (\<lambda>e. ev_id e = ev_id ev) (events s) = Some e0 \<and> suggestedAt e0 = None \<longrightarrow>
            find (\<lambda>e. ev_id e = ev_id ev) (events (confirmSuggested now rendered s))
              = Some (e0\<lparr>suggestedAt := Some now\<rparr>))
       \<and> map participants (events (confirmSuggested now rendered s)) = map participants (events s)"
proof -
  have none: "filter (\<lambda>i. i \<notin> set (map kidId (participants ev)))
                (map fst (filter snd (suggestSelection rendered))) = []"
    using picks by (simp add: list_all_iff filter_empty_conv)
  have ev: "events (confirmSuggested now rendered s') =
      map (\<lambda>e. if ev_id e = ev_id ev
              then e\<lparr>suggestedAt := Some (case suggestedAt e of None \<Rightarrow> now | Some b \<Rightarrow> b)\<rparr>
              else e) (events s')" for s'
    unfolding events_confirmSuggested [OF act] none by simp
  have found: "find (\<lambda>e. ev_id e = ev_id ev) (events (confirmSuggested now rendered s'))
          = Some (e'\<lparr>suggestedAt := Some now\<rparr>)"
    if f: "find (\<lambda>e. ev_id e = ev_id ev) (events s') = Some e'" and u: "suggestedAt e' = None"
    for s' e'
  proof -
    have "find (\<lambda>e. ev_id e = ev_id ev) (events (confirmSuggested now rendered s'))
          = Some (e'\<lparr>suggestedAt := Some (case suggestedAt e' of None \<Rightarrow> now | Some b \<Rightarrow> b)\<rparr>)"
      unfolding ev by (rule find_map_update [OF f]) simp
    with u show ?thesis by simp
  qed
  have same: "map participants (events (confirmSuggested now rendered s')) = map participants (events s')"
    for s'
    unfolding ev by (induction "events s'") auto
  from found [OF activeEventForSuggest_SomeD(3) [OF act] unset] found [of s e0]
    same [of rendered] same [of s]
  show ?thesis by blast
qed

theorem confirmSuggested_sets_baseline_without_new_picks_witness:
  "activeEventForSuggest (demoState\<lparr>suggestSelection := []\<rparr>) = Some campEvent
   \<and> suggestedAt campEvent = None
   \<and> list_all (\<lambda>i. i \<in> set (map kidId (participants campEvent)))
        (map fst (filter snd (suggestSelection (demoState\<lparr>suggestSelection := []\<rparr>))))
   \<and> find (\<lambda>e. ev_id e = ev_id campEvent)
        (events (confirmSuggested 1000 (demoState\<lparr>suggestSelection := []\<rparr>)
                   (demoState\<lparr>suggestSelection := []\<rparr>)))
        = Some (campEvent\<lparr>suggestedAt := Some 1000\<rparr>)
   \<and> map participants (events (confirmSuggested 1000 (demoState\<lparr>suggestSelection := []\<rparr>)
                                   (demoState\<lparr>suggestSelection := []\<rparr>)))
        = map participants (events (demoState\<lparr>suggestSelection := []\<rparr>))"
proof -
  let ?s = "demoState\<lparr>suggestSelection := []\<rparr>"
  have h1: "activeEventForSuggest ?s = Some campEvent"
    by (simp add: activeEventForSuggest_def demoState_def campEvent_def)
  have h2: "suggestedAt campEvent = None"
    by (simp add: campEvent_def)
  have h3: "list_all (\<lambda>i. i \<in> set (map kidId (participants campEvent)))
              (map fst (filter snd (suggestSelection ?s)))"
    by simp
  show ?thesis
    using h1 h2 h3 confirmSuggested_sets_baseline_without_new_picks [OF h1 h2 h3, of 1000]
    by blast
qed

subsection \<open>Attention\<close>

lemma intersectionCount_fold:
  "fold (\<lambda>t c. if t \<in> bSet then c + 1 else c) a (c0 :: int) = c0 + int (length (filter (\<lambda>t. t \<in> bSet) a))"
  by (induction a arbitrary: c0) auto

lemma intersectionCount_filter:
  "intersectionCount a bSet = int (length (filter (\<lambda>t. t \<in> bSet) a))"
  by (simp add: intersectionCount_def intersectionCount_fold)

lemma count_loop:
  "fold (\<lambda>k c. if kid_id k \<in> assigned then c
                else if createdAt k \<le> baseline then c
                else if intersectionCount (kid_tags k) tagSet > 1 then c + 1
                else c) ks (c0 :: nat)
     = c0 + length (filter (\<lambda>k. createdAt k > baseline \<and> kid_id k \<notin> assigned
                                \<and> intersectionCount (kid_tags k) tagSet > 1) ks)"
  by (induction ks arbitrary: c0) auto

lemma hits_loop:
  "foldl (\<lambda>hits k. if kid_id k \<in> assigned then hits
                    else if createdAt k \<le> baseline then hits
                    else (let score = intersectionCount (kid_tags k) tagSet
                          in if score > 1 then hits @ [(k, score)] else hits)) hits0 ks
     = hits0 @ map (\<lambda>k. (k, intersectionCount (kid_tags k) tagSet))
                 (filter (\<lambda>k. createdAt k > baseline \<and> kid_id k \<notin> assigned
                                \<and> intersectionCount (kid_tags k) tagSet > 1) ks)"
  by (induction ks arbitrary: hits0) (auto simp: Let_def)

lemma attentionCount_eq:
  "attentionCount ks ev =
     (case suggestedAt ev of
        None \<Rightarrow> 0
      | Some b \<Rightarrow> if b = 0 \<or> ev_tags ev = [] then 0
                  else length (filter (\<lambda>k. createdAt k > b
                                          \<and> kid_id k \<notin> set (map kidId (participants ev))
                                          \<and> intersectionCount (kid_tags k) (set (ev_tags ev)) > 1) ks))"
  by (simp add: attentionCount_def Let_def count_loop split: option.splits)

lemma length_newMatches:
  "length (newMatches localeCompare ks ev) =
     (case suggestedAt ev of
        None \<Rightarrow> 0
      | Some b \<Rightarrow> if b = 0 \<or> ev_tags ev = [] then 0
                  else length (filter (\<lambda>k. createdAt k > b
                                          \<and> kid_id k \<notin> set (map kidId (participants ev))
                                          \<and> intersectionCount (kid_tags k) (set (ev_tags ev)) > 1) ks))"
  by (simp add: newMatches_def Let_def hits_loop length_jsSort jsSort_Nil split: option.splits)

lemma attentionById_snoc:
  "attentionById ks (evs @ [e]) = (attentionById ks evs)(ev_id e \<mapsto> attentionCount ks e)"
  by (simp add: attentionById_def)

lemma attentionById_lookup:
  "distinct (map ev_id evs) \<Longrightarrow> ev \<in> set evs \<Longrightarrow>
   attentionById ks evs (ev_id ev) = Some (attentionCount ks ev)"
proof (induction evs rule: rev_induct)
  case Nil
  then show ?case by simp
next
  case (snoc e evs)
  show ?case
  proof (cases "ev = e")
    case True
    then show ?thesis by (simp add: attentionById_snoc)
  next
    case False
    with snoc.prems have mem: "ev \<in> set evs" by simp
    with snoc.prems have "ev_id ev \<noteq> ev_id e" by (auto simp: image_iff)
    with snoc.IH mem snoc.prems show ?thesis by (simp add: attentionById_snoc)
  qed
qed

lemma find_unique_id:
  "distinct (map ev_id evs) \<Longrightarrow> ev \<in> set evs \<Longrightarrow> find (\<lambda>e. ev_id e = ev_id ev) evs = Some ev"
proof (induction evs)
  case Nil
  then show ?case by simp
next
  case (Cons e evs)
  then show ?case by (cases "ev = e") auto
qed

text \<open>
  C8. For one event the counting pass of \<^verbatim>\<open>attentionById\<close> and the collecting pass of
  \<^verbatim>\<open>detailNewMatches\<close> agree: the count is the length of the list. With unique event
  ids, the badge value stored under an event's id is the length of the detail list
  shown when that event is the one open in the detail view.
\<close>

theorem attention_count_is_detail_length:
  "attentionCount ks ev = length (newMatches localeCompare ks ev)
   \<and> (distinct (map ev_id (events s)) \<and> ev \<in> set (events s)
        \<and> activeEventIdForDetail s = Some (ev_id ev)
      \<longrightarrow> attentionById (kids s) (events s) (ev_id ev)
            = Some (length (detailNewMatches localeCompare s)))"
proof -
  have one: "attentionCount ks' ev' = length (newMatches localeCompare ks' ev')" for ks' ev'
    by (simp only: attentionCount_eq length_newMatches)
  have "attentionById (kids s) (events s) (ev_id ev) = Some (length (detailNewMatches localeCompare s))"
    if ids: "distinct (map ev_id (events s))" and mem: "ev \<in> set (events s)"
      and act: "activeEventIdForDetail s = Some (ev_id ev)"
  proof -
    have "activeEventForDetail s = Some ev"
      using find_unique_id [OF ids mem] act by (simp add: activeEventForDetail_def)
    then have "detailNewMatches localeCompare s = newMatches localeCompare (kids s) ev"
      by (simp add: detailNewMatches_def)
    then show ?thesis
      using attentionById_lookup [OF ids mem, of "kids s"] one [of "kids s" ev] by simp
  qed
  with one show ?thesis by blast
qed
theorem attention_count_is_detail_length_witness:
  "distinct (map ev_id (events laterState))
   \<and> triagedCamp \<in> set (events laterState)
   \<and> activeEventIdForDetail laterState = Some (ev_id triagedCamp)
   \<and> attentionCount (kids laterState) triagedCamp
        = length (newMatches sampleCompare (kids laterState) triagedCamp)
   \<and> attentionById (kids laterState) (events laterState) (ev_id triagedCamp)
        = Some (length (detailNewMatches sampleCompare laterState))"
proof -
  have h1: "distinct (map ev_id (events laterState))"
    by (simp add: laterState_def)
  have h2: "triagedCamp \<in> set (events laterState)"
    by (simp add: laterState_def)
  have h3: "activeEventIdForDetail laterState = Some (ev_id triagedCamp)"
    by (simp add: laterState_def demoState_def triagedCamp_def campEvent_def)
  show ?thesis
    using h1 h2 h3
      attention_count_is_detail_length [of "kids laterState" triagedCamp sampleCompare laterState]
    by blast
qed

text \<open>
  C3, as amended. The count the detector computes for an event is 0 when the event's
  \<^verbatim>\<open>suggestedAt\<close> is unset or 0 or its tag list is empty; otherwise, with \<open>b\<close> the
  baseline, it is the number of kids with \<^verbatim>\<open>createdAt > b\<close>, an id that is not in the
  event's participant list, and an \<^verbatim>\<open>intersectionCount\<close> with the event's tags greater
  than 1. With unique event ids that count is what \<^verbatim>\<open>attentionById\<close> holds under the
  event's id.
\<close>

theorem attentionById_counts_new_strong_matches:
  "attentionCount ks ev =
     (case suggestedAt ev of
        None \<Rightarrow> 0
      | Some b \<Rightarrow>
          if b = 0 \<or> ev_tags ev = [] then 0
          else length (filter (\<lambda>k. createdAt k > b
                                  \<and> kid_id k \<notin> set (map kidId (participants ev))
                                  \<and> intersectionCount (kid_tags k) (set (ev_tags ev)) > 1)
                         ks))
   \<and> (distinct (map ev_id evs) \<and> ev \<in> set evs
        \<longrightarrow> attentionById ks evs (ev_id ev) = Some (attentionCount ks ev))"
  using attentionById_lookup [of evs ev ks] attentionCount_eq [of ks ev] by blast

theorem attentionById_counts_new_strong_matches_witness:
  "distinct (map ev_id [triagedCamp])
   \<and> triagedCamp \<in> set [triagedCamp]
   \<and> suggestedAt triagedCamp = Some 1000
   \<and> attentionCount [kidAnn, kidBen, kidCy] triagedCamp = 1
   \<and> attentionById [kidAnn, kidBen, kidCy] [triagedCamp] (ev_id triagedCamp) = Some 1"
proof -
  have h1: "distinct (map ev_id [triagedCamp])" by simp
  have h2: "triagedCamp \<in> set [triagedCamp]" by simp
  have h3: "suggestedAt triagedCamp = Some 1000" by (simp add: triagedCamp_def)
  note inst = attentionById_counts_new_strong_matches
                [of "[kidAnn, kidBen, kidCy]" triagedCamp "[triagedCamp]"]
  have count: "attentionCount [kidAnn, kidBen, kidCy] triagedCamp = 1"
    using inst
    by (simp add: triagedCamp_def campEvent_def kidAnn_def kidBen_def kidCy_def
        intersectionCount_def)
  have "attentionById [kidAnn, kidBen, kidCy] [triagedCamp] (ev_id triagedCamp)
          = Some (attentionCount [kidAnn, kidBen, kidCy] triagedCamp)"
    using inst h1 h2 by blast
  with h1 h2 h3 count show ?thesis by simp
qed

text \<open>
  C3 as first stated fails for a baseline of 0: \<^verbatim>\<open>if (!baseline)\<close> treats a stored
  \<^verbatim>\<open>suggestedAt\<close> of 0 like an absent one. Here the event's \<^verbatim>\<open>suggestedAt\<close> is set
  (to 0), its tag list is not empty, and the kid was created after 0, is not assigned
  and shares two tags, yet the count is 0.
\<close>

theorem attentionById_zero_baseline_counterexample:
  "suggestedAt (campEvent\<lparr>suggestedAt := Some 0\<rparr>) = Some 0
   \<and> ev_tags (campEvent\<lparr>suggestedAt := Some 0\<rparr>) \<noteq> []
   \<and> createdAt kidBen > 0
   \<and> kid_id kidBen \<notin> set (map kidId (participants (campEvent\<lparr>suggestedAt := Some 0\<rparr>)))
   \<and> intersectionCount (kid_tags kidBen) (set (ev_tags (campEvent\<lparr>suggestedAt := Some 0\<rparr>))) > 1
   \<and> attentionCount [kidBen] (campEvent\<lparr>suggestedAt := Some 0\<rparr>) = 0
   \<and> attentionById [kidBen] [campEvent\<lparr>suggestedAt := Some 0\<rparr>]
        (ev_id (campEvent\<lparr>suggestedAt := Some 0\<rparr>)) = Some 0"
  by (simp add: attentionById_def attentionCount_def campEvent_def kidBen_def intersectionCount_def)

subsection \<open>Ranking suggestions\<close>

lemma sampleCompare_total: "sampleCompare a b \<le> 0 \<or> sampleCompare b a \<le> 0"
  by (induction a b rule: sampleCompare.induct) auto

lemma sampleCompare_trans:
  "sampleCompare a b \<le> 0 \<Longrightarrow> sampleCompare b c \<le> 0 \<Longrightarrow> sampleCompare a c \<le> 0"
proof (induction a b arbitrary: c rule: sampleCompare.induct)
  case 1
  then show ?case by simp
next
  case (2 y ys)
  then show ?case by (cases c) auto
next
  case (3 x xs)
  then show ?case by simp
next
  case (4 x xs y ys)
  show ?case
  proof (cases c)
    case Nil
    with "4.prems" show ?thesis by simp
  next
    case (Cons z zs)
    show ?thesis
    proof (cases "(of_char x :: nat) < of_char z")
      case True
      then show ?thesis by (simp add: Cons)
    next
      case False
      with "4.prems" Cons have eqs: "(of_char x :: nat) = of_char y" "(of_char y :: nat) = of_char z"
        by (auto split: if_splits)
      with "4.prems" Cons have "sampleCompare xs ys \<le> 0" "sampleCompare ys zs \<le> 0"
        by auto
      with "4.IH" [of zs] eqs have "sampleCompare xs zs \<le> 0" by simp
      with eqs show ?thesis by (simp add: Cons)
    qed
  qed
qed

lemma sampleCompare_consistent:
  "\<forall>a b. sampleCompare a b \<le> 0 \<or> sampleCompare b a \<le> 0"
  "\<forall>a b c. sampleCompare a b \<le> 0 \<and> sampleCompare b c \<le> 0 \<longrightarrow> sampleCompare a c \<le> 0"
  using sampleCompare_total sampleCompare_trans by blast+

lemma map_fst_scored:
  "map fst (filter (\<lambda>x. snd x > 0) (map (\<lambda>k. (k, f k)) xs)) = filter (\<lambda>k. f k > (0::int)) xs"
  by (induction xs) auto

lemma filter3:
  "filter P (filter Q (filter R xs)) = filter (\<lambda>k. R k \<and> Q k \<and> P k) xs"
  by (induction xs) auto

lemma scores_scored:
  "list_all (\<lambda>x. snd x = f (fst x)) (filter (\<lambda>x. snd x > 0) (map (\<lambda>k. (k, f k)) xs))"
  by (induction xs) auto

lemma queryHit_iff:
  "queryHit q k = (q = [] \<or> sublist q (toLowerCase (kid_name k))
                    \<or> list_ex (\<lambda>t. sublist q (toLowerCase t)) (kid_tags k))"
  by (simp add: queryHit_def Let_def)

lemma suggestedKids_Some:
  "suggestedKids localeCompare (Some ev) ks search assigned =
     jsSort (byScoreThenName localeCompare)
       (filter (\<lambda>x. snd x > 0)
          (map (\<lambda>k. (k, intersectionCount (kid_tags k) (set (ev_tags ev))))
             (filter (queryHit (toLowerCase (trim search)))
                (filter (\<lambda>k. kid_id k \<notin> assigned) ks))))"
  by (simp add: suggestedKids_def Let_def)

lemma sorted_byScoreThenName:
  assumes total: "\<And>a b. localeCompare a b \<le> 0 \<or> localeCompare b a \<le> 0"
    and trans: "\<And>a b c. localeCompare a b \<le> 0 \<Longrightarrow> localeCompare b c \<le> 0 \<Longrightarrow> localeCompare a c \<le> 0"
  shows "sorted_wrt (\<lambda>a b. snd a > snd b
                        \<or> (snd a = snd b \<and> localeCompare (kid_name (fst a)) (kid_name (fst b)) \<le> 0))
           (jsSort (byScoreThenName localeCompare) xs)"
proof (rule sorted_wrt_jsSort)
  fix x y :: "kid \<times> int"
  assume "byScoreThenName localeCompare x y \<le> 0"
  then show "snd x > snd y \<or> (snd x = snd y \<and> localeCompare (kid_name (fst x)) (kid_name (fst y)) \<le> 0)"
    by (auto simp: byScoreThenName_def split: if_splits)
next
  fix x y :: "kid \<times> int"
  assume "\<not> byScoreThenName localeCompare x y \<le> 0"
  then show "snd y > snd x \<or> (snd y = snd x \<and> localeCompare (kid_name (fst y)) (kid_name (fst x)) \<le> 0)"
    using total [of "kid_name (fst x)" "kid_name (fst y)"]
    by (auto simp: byScoreThenName_def split: if_splits)
next
  fix x y z :: "kid \<times> int"
  assume "snd x > snd y \<or> (snd x = snd y \<and> localeCompare (kid_name (fst x)) (kid_name (fst y)) \<le> 0)"
    and "snd y > snd z \<or> (snd y = snd z \<and> localeCompare (kid_name (fst y)) (kid_name (fst z)) \<le> 0)"
  then show "snd x > snd z \<or> (snd x = snd z \<and> localeCompare (kid_name (fst x)) (kid_name (fst z)) \<le> 0)"
    using trans [of "kid_name (fst x)" "kid_name (fst y)" "kid_name (fst z)"]
    by auto
qed

text \<open>
  C6, as amended. For an active event, \<^verbatim>\<open>suggestedKids\<close> returns exactly the kids of the
  roster whose id is not among the assigned ids, who match the search text after it is
  trimmed and lower-cased (that text is empty, or occurs in the lower-cased name or in a
  lower-cased tag), and whose \<^verbatim>\<open>intersectionCount\<close> with the event's tags is positive,
  each paired with that count. When \<^verbatim>\<open>localeCompare\<close> is a consistent ordering of names
  (total and transitive), the result is ordered by descending score, ties by ascending
  name. The result is a function of the inputs alone.
\<close>

theorem suggestedKids_ranked:
  assumes total: "\<forall>a b. localeCompare a b \<le> 0 \<or> localeCompare b a \<le> 0"
    and trans: "\<forall>a b c. localeCompare a b \<le> 0 \<and> localeCompare b c \<le> 0 \<longrightarrow> localeCompare a c \<le> 0"
  shows "mset (map fst (suggestedKids localeCompare (Some ev) ks search assigned))
           = filter_mset
               (\<lambda>k. kid_id k \<notin> assigned
                   \<and> (toLowerCase (trim search) = []
                       \<or> sublist (toLowerCase (trim search)) (toLowerCase (kid_name k))
                       \<or> list_ex (\<lambda>t. sublist (toLowerCase (trim search)) (toLowerCase t)) (kid_tags k))
                   \<and> intersectionCount (kid_tags k) (set (ev_tags ev)) > 0)
               (mset ks)
       \<and> list_all (\<lambda>x. snd x = intersectionCount (kid_tags (fst x)) (set (ev_tags ev)))
            (suggestedKids localeCompare (Some ev) ks search assigned)
       \<and> sorted_wrt (\<lambda>a b. snd a > snd b
                          \<or> (snd a = snd b \<and> localeCompare (kid_name (fst a)) (kid_name (fst b)) \<le> 0))
            (suggestedKids localeCompare (Some ev) ks search assigned)"
proof -
  let ?sc = "\<lambda>k. intersectionCount (kid_tags k) (set (ev_tags ev))"
  let ?q = "toLowerCase (trim search)"
  let ?P = "\<lambda>k. kid_id k \<notin> assigned \<and> queryHit ?q k \<and> ?sc k > 0"
  let ?scored = "filter (\<lambda>x. snd x > 0) (map (\<lambda>k. (k, ?sc k))
                   (filter (queryHit ?q) (filter (\<lambda>k. kid_id k \<notin> assigned) ks)))"
  have res: "suggestedKids localeCompare (Some ev) ks search assigned
               = jsSort (byScoreThenName localeCompare) ?scored"
    by (rule suggestedKids_Some)
  have fst_scored: "map fst ?scored = filter ?P ks"
    unfolding map_fst_scored filter3 ..
  have "mset (map fst (jsSort (byScoreThenName localeCompare) ?scored)) = mset (map fst ?scored)"
    by (simp only: mset_map mset_jsSort)
  also have "\<dots> = mset (filter ?P ks)"
    by (simp only: fst_scored)
  also have "\<dots> = filter_mset ?P (mset ks)"
    by (rule mset_filter)
  finally have members:
    "mset (map fst (suggestedKids localeCompare (Some ev) ks search assigned))
       = filter_mset ?P (mset ks)"
    by (simp only: res)
  have "list_all (\<lambda>x. snd x = ?sc (fst x)) ?scored"
    by (rule scores_scored)
  then have scores: "list_all (\<lambda>x. snd x = ?sc (fst x))
                       (suggestedKids localeCompare (Some ev) ks search assigned)"
    unfolding res list_all_iff set_jsSort .
  have order: "sorted_wrt (\<lambda>a b. snd a > snd b
                          \<or> (snd a = snd b \<and> localeCompare (kid_name (fst a)) (kid_name (fst b)) \<le> 0))
            (suggestedKids localeCompare (Some ev) ks search assigned)"
    unfolding res
  proof (rule sorted_byScoreThenName)
    show "localeCompare a b \<le> 0 \<or> localeCompare b a \<le> 0" for a b
      using total by blast
    show "localeCompare a c \<le> 0" if "localeCompare a b \<le> 0" "localeCompare b c \<le> 0" for a b c
      using trans that by blast
  qed
  from members scores order show ?thesis
    unfolding queryHit_iff by (intro conjI)
qed

theorem suggestedKids_ranked_witness:
  "suggestedKids sampleCompare (Some campEvent) [kidCy, kidBen, kidAnn] ''N '' {}
     = [(kidBen, 2), (kidAnn, 1), (kidCy, 1)]
   \<and> sorted_wrt (\<lambda>a b. snd a > snd b
                      \<or> (snd a = snd b \<and> sampleCompare (kid_name (fst a)) (kid_name (fst b)) \<le> 0))
        (suggestedKids sampleCompare (Some campEvent) [kidCy, kidBen, kidAnn] ''N '' {})"
proof -
  have run: "suggestedKids sampleCompare (Some campEvent) [kidCy, kidBen, kidAnn] ''N '' {}
               = [(kidBen, 2), (kidAnn, 1), (kidCy, 1)]"
    by code_simp
  show ?thesis
    using run suggestedKids_ranked [OF sampleCompare_consistent,
        of campEvent "[kidCy, kidBen, kidAnn]" "''N ''" "{}"]
    by blast
qed

text \<open>
  C6 as first stated fails for a search text with surrounding white space: the
  code trims the text before matching. The text \<open>''Ann ''\<close> is not empty and is a
  substring neither of the kid's name nor of a tag, whatever the case of the letters,
  yet the kid is returned.
\<close>

theorem suggestedKids_untrimmed_query_counterexample:
  "suggestedKids sampleCompare (Some campEvent) [kidAnn] ''Ann '' {} = [(kidAnn, 1)]
   \<and> ''Ann '' \<noteq> []
   \<and> \<not> sublist (toLowerCase ''Ann '') (toLowerCase (kid_name kidAnn))
   \<and> \<not> list_ex (\<lambda>t. sublist (toLowerCase ''Ann '') (toLowerCase t)) (kid_tags kidAnn)"
  by code_simp

subsection \<open>Day buckets\<close>









subsection \<open>Tag propagation\<close>

lemma set_dedupe_step:
  "set (foldl (\<lambda>seen x. if x \<in> set seen then seen else seen @ [x]) acc xs) = set acc \<union> set xs"
  by (induction xs arbitrary: acc) auto

lemma distinct_dedupe_step:
  "distinct acc \<Longrightarrow> distinct (foldl (\<lambda>seen x. if x \<in> set seen then seen else seen @ [x]) acc xs)"
  by (induction xs arbitrary: acc) auto

lemma set_dedupe: "set (dedupe xs) = set xs"
  by (simp add: dedupe_def set_dedupe_step)

lemma distinct_dedupe: "distinct (dedupe xs)"
  by (simp add: dedupe_def distinct_dedupe_step)

lemma renamed_list:
  assumes "o' \<noteq> n"
  shows "o' \<notin> set (dedupe (replaceIn o' n xs))"
    and "distinct (dedupe (replaceIn o' n xs))"
    and "o' \<in> set xs \<Longrightarrow> n \<in> set (dedupe (replaceIn o' n xs))"
    and "set (dedupe (replaceIn o' n xs)) - {n} = set xs - {o', n}"
  using assms by (auto simp: set_dedupe distinct_dedupe replaceIn_def)

lemma removed_list:
  "t \<notin> set (removeFrom t xs)"
  "filter (\<lambda>x. x \<noteq> t) xs = removeFrom t xs"
  by (simp_all add: removeFrom_def)

text \<open>
  On the collections it does write, the rename leaves no occurrence of the old tag.
\<close>

lemma renameTagEverywhere_written_collections:
  assumes "clampStr oldTag = o'" and "clampStr newTag = n" and "o' \<noteq> []" and "n \<noteq> []" and "o' \<noteq> n"
  shows "list_all (\<lambda>(cat, list). o' \<notin> set list) (tagCatalog (renameTagEverywhere oldTag newTag s))"
    and "list_all (\<lambda>k. o' \<notin> set (kid_tags k)) (kids (renameTagEverywhere oldTag newTag s))"
    and "list_all (\<lambda>e. o' \<notin> set (ev_tags e)) (events (renameTagEverywhere oldTag newTag s))"
    and "o' \<notin> set (kidFilterTags (renameTagEverywhere oldTag newTag s))"
    and "o' \<notin> set (newKidTags (renameTagEverywhere oldTag newTag s))"
    and "o' \<notin> set (editKidTags (renameTagEverywhere oldTag newTag s))"
    and "o' \<notin> set (evTags (renameTagEverywhere oldTag newTag s))"
    and "o' \<notin> set (editEventTags (renameTagEverywhere oldTag newTag s))"
  using assms
  by (auto simp: renameTagEverywhere_def Let_def list_all_iff renamed_list(1))

lemma deleteTagEverywhere_written_collections:
  assumes "clampStr tag = t" and "t \<noteq> []"
  shows "list_all (\<lambda>(cat, list). t \<notin> set list) (tagCatalog (deleteTagEverywhere tag s))"
    and "list_all (\<lambda>k. t \<notin> set (kid_tags k)) (kids (deleteTagEverywhere tag s))"
    and "list_all (\<lambda>e. t \<notin> set (ev_tags e)) (events (deleteTagEverywhere tag s))"
    and "t \<notin> set (kidFilterTags (deleteTagEverywhere tag s))"
    and "t \<notin> set (newKidTags (deleteTagEverywhere tag s))"
    and "t \<notin> set (editKidTags (deleteTagEverywhere tag s))"
    and "t \<notin> set (evTags (deleteTagEverywhere tag s))"
    and "t \<notin> set (editEventTags (deleteTagEverywhere tag s))"
  using assms
  by (auto simp: deleteTagEverywhere_def Let_def list_all_iff removed_list(1))

text \<open>
  C1. \<^verbatim>\<open>renameTagEverywhere\<close> never writes \<^verbatim>\<open>listFilterTags\<close>. In the sample state
  the List View filter holds the tag north; after north is renamed to up the catalog and
  the kid filter hold up, and the List View filter still holds north.
\<close>

theorem renameTagEverywhere_skips_listFilterTags:
  "listFilterTags (renameTagEverywhere oldTag newTag s) = listFilterTags s
   \<and> listFilterTags demoState = [''north'']
   \<and> tagCatalog (renameTagEverywhere ''north'' ''up'' demoState) = [(''Region'', [''up'', ''south''])]
   \<and> kidFilterTags (renameTagEverywhere ''north'' ''up'' demoState) = [''up'']
   \<and> listFilterTags (renameTagEverywhere ''north'' ''up'' demoState) = [''north'']"
proof -
  have "listFilterTags (renameTagEverywhere oldTag newTag s) = listFilterTags s"
    by (simp add: renameTagEverywhere_def Let_def)
  moreover have "listFilterTags demoState = [''north'']"
    by (simp add: demoState_def)
  moreover have "tagCatalog (renameTagEverywhere ''north'' ''up'' demoState) = [(''Region'', [''up'', ''south''])]"
    by code_simp
  moreover have "kidFilterTags (renameTagEverywhere ''north'' ''up'' demoState) = [''up'']"
    by code_simp
  moreover have "listFilterTags (renameTagEverywhere ''north'' ''up'' demoState) = [''north'']"
    by code_simp
  ultimately show ?thesis by blast
qed

text \<open>
  C2. \<^verbatim>\<open>deleteTagEverywhere\<close> never writes \<^verbatim>\<open>listFilterTags\<close> either. After north is
  deleted the catalog and the kid filter no longer hold it, and the List View filter
  still does.
\<close>

theorem deleteTagEverywhere_skips_listFilterTags:
  "listFilterTags (deleteTagEverywhere tag s) = listFilterTags s
   \<and> listFilterTags demoState = [''north'']
   \<and> tagCatalog (deleteTagEverywhere ''north'' demoState) = [(''Region'', [''south''])]
   \<and> kidFilterTags (deleteTagEverywhere ''north'' demoState) = []
   \<and> listFilterTags (deleteTagEverywhere ''north'' demoState) = [''north'']"
proof -
  have "listFilterTags (deleteTagEverywhere tag s) = listFilterTags s"
    by (simp add: deleteTagEverywhere_def Let_def)
  moreover have "listFilterTags demoState = [''north'']"
    by (simp add: demoState_def)
  moreover have "tagCatalog (deleteTagEverywhere ''north'' demoState) = [(''Region'', [''south''])]"
    by code_simp
  moreover have "kidFilterTags (deleteTagEverywhere ''north'' demoState) = []"
    by code_simp
  moreover have "listFilterTags (deleteTagEverywhere ''north'' demoState) = [''north'']"
    by code_simp
  ultimately show ?thesis by blast
qed

subsection \<open>Creating an event\<close>

lemma combineDateTime_empty_date: "combineDateTime makeDate [] timeStr = None"
  by (simp add: combineDateTime_def part_def Let_def split: option.splits)

lemma combineDateTime_sample_end:
  "combineDateTime makeDate ''2025-01-02'' ''10:00'' = makeDate 2025 0 2 10 0"
proof -
  have d: "map jsNumber (splitOn (CHR ''-'') ''2025-01-02'') = [Some 2025, Some 1, Some 2]"
    by code_simp
  have t: "map jsNumber (splitOn (CHR '':'') ''10:00'') = [Some 10, Some 0]"
    by code_simp
  show ?thesis
    unfolding combineDateTime_def d t by (simp add: part_def)
qed

lemma createEvent_rejects_empty_title:
  "clampStr (evTitle s) = [] \<Longrightarrow> createEvent makeDate newId s = (Some TitleRequired, s)"
  by (simp add: createEvent_def)

lemma createEvent_rejects_start_ge_end:
  "date_ge (combineDateTime makeDate (evStartDate s) (evStartTime s))
           (combineDateTime makeDate (evEndDate s) (evEndTime s))
   \<Longrightarrow> createEvent makeDate newId s
         = (if clampStr (evTitle s) = [] then Some TitleRequired else Some StartMustPrecedeEnd, s)"
  by (simp add: createEvent_def Let_def)

text \<open>
  C9. \<^verbatim>\<open>createEvent\<close> rejects an empty title and a start that is at or after the end
  (the two lemmas above). The test \<^verbatim>\<open>start >= end\<close> is false, though, when a date is
  invalid: in the sample state the title is given and the start date field is empty, so
  the combined start is an Invalid Date, which is not before the end, and the event is
  appended with no alert.
\<close>

theorem createEvent_accepts_invalid_start:
  "evTitle demoState = ''Trip''
   \<and> evStartDate demoState = []
   \<and> combineDateTime makeDate (evStartDate demoState) (evStartTime demoState) = None
   \<and> \<not> date_lt (combineDateTime makeDate (evStartDate demoState) (evStartTime demoState))
              (combineDateTime makeDate (evEndDate demoState) (evEndTime demoState))
   \<and> fst (createEvent makeDate newId demoState) = None
   \<and> events (snd (createEvent makeDate newId demoState))
        = events demoState @
            [\<lparr>ev_id = newId, ev_title = ''Trip'', ev_start = None, ev_end = makeDate 2025 0 2 10 0,
              ev_tags = [], participants = [], suggestedAt = None, suggestNotes = []\<rparr>]"
proof -
  have f: "evTitle demoState = ''Trip''" "evStartDate demoState = []" "evTags demoState = []"
    by (simp_all add: demoState_def)
  have t: "clampStr (evTitle demoState) = ''Trip''"
    by code_simp
  have st: "combineDateTime makeDate (evStartDate demoState) (evStartTime demoState) = None"
    by (simp add: demoState_def combineDateTime_empty_date)
  have en: "combineDateTime makeDate (evEndDate demoState) (evEndTime demoState)
              = makeDate 2025 0 2 10 0"
    by (simp add: demoState_def combineDateTime_sample_end)
  have run: "createEvent makeDate newId demoState =
      (None, openSuggestForEvent newId
               (demoState\<lparr>events := events demoState @
                   [\<lparr>ev_id = newId, ev_title = ''Trip'', ev_start = None,
                     ev_end = makeDate 2025 0 2 10 0, ev_tags = [], participants = [],
                     suggestedAt = None, suggestNotes = []\<rparr>],
                 evTitle := []\<rparr>))"
    unfolding createEvent_def t st en Let_def by (simp add: date_ge_def f)
  have "\<not> date_lt (combineDateTime makeDate (evStartDate demoState) (evStartTime demoState))
              (combineDateTime makeDate (evEndDate demoState) (evEndTime demoState))"
    unfolding st by (simp add: date_lt_def)
  with f st show ?thesis
    unfolding run by (simp add: openSuggestForEvent_def)
qed

end
